theory Spec2Isabelle
  imports Complex_Main "HOL-Library.List_Lexorder" "HOL-Library.Multiset"
begin

section \<open>The news backend (backend/app.py, written out by setup-project.sh)\<close>

text \<open>
  The backend keeps one global list, \<^verbatim>\<open>news_storage\<close>, of article dictionaries. Every
  function below takes that list as an argument and, where the source mutates it, returns
  the new list.
\<close>

subsection \<open>Python strings\<close>

text \<open>
  A Python \<^verbatim>\<open>str\<close> is a sequence of Unicode code points, here a list of natural numbers.
  The order on them is the lexicographic one, which is how Python compares \<^verbatim>\<open>str\<close>
  values. \<open>ascii\<close> writes a string of ASCII characters as such a list.
\<close>

type_synonym str = "nat list"

definition ascii :: "string \<Rightarrow> str" where
  "ascii s = map of_char s"

subsection \<open>Articles\<close>

text \<open>
  The dictionary built in \<^verbatim>\<open>scrape_rss_feed\<close>, one field per key. The key \<^verbatim>\<open>'id'\<close> is named
  \<open>id_key\<close> here.
\<close>

record article =
  id_key :: int
  title :: str
  summary :: str
  content :: str
  link :: str
  published :: str
  source :: str
  scraped_at :: str

type_synonym storage = "article list"

subsection \<open>Python's sort\<close>

text \<open>
  \<^verbatim>\<open>sorted(xs, key=k, reverse=r)\<close> and \<^verbatim>\<open>xs.sort(key=k, reverse=r)\<close> are stable. With
  \<^verbatim>\<open>reverse=True\<close> elements with equal keys keep their original order as well: the list is
  reversed, sorted and reversed again.
\<close>

definition py_sorted :: "('a \<Rightarrow> 'k::linorder) \<Rightarrow> bool \<Rightarrow> 'a list \<Rightarrow> 'a list" where
  "py_sorted key reverse xs =
     (if reverse then rev (sort_key key (rev xs)) else sort_key key xs)"

subsection \<open>Updating the storage (the second half of scrape\_all\_feeds)\<close>

text \<open>
  \<^verbatim>\<open>next((i for i, a in enumerate(news_storage) if a['id'] == article['id']), None)\<close>:
  the first index whose article has the given id.
\<close>

fun existing_index :: "int \<Rightarrow> storage \<Rightarrow> nat option" where
  "existing_index k [] = None"
| "existing_index k (a # as) =
     (if id_key a = k then Some 0 else map_option Suc (existing_index k as))"

text \<open>The body of the loop \<^verbatim>\<open>for article in all_articles\<close>.\<close>

definition upsert :: "storage \<Rightarrow> article \<Rightarrow> storage" where
  "upsert news_storage article =
     (case existing_index (id_key article) news_storage of
        Some i \<Rightarrow> news_storage[i := article]
      | None \<Rightarrow> news_storage @ [article])"

definition update_storage :: "storage \<Rightarrow> article list \<Rightarrow> storage" where
  "update_storage news_storage all_articles = foldl upsert news_storage all_articles"

text \<open>
  \<^verbatim>\<open>news_storage.sort(key=lambda x: x['published'], reverse=True)\<close> followed by
  \<^verbatim>\<open>del news_storage[100:]\<close>.
\<close>

definition keep_recent :: "storage \<Rightarrow> storage" where
  "keep_recent news_storage = take 100 (py_sorted published True news_storage)"

text \<open>The merge of a batch of articles into the storage: update, sort, truncate.\<close>

definition merge_articles :: "storage \<Rightarrow> article list \<Rightarrow> storage" where
  "merge_articles news_storage all_articles =
     keep_recent (update_storage news_storage all_articles)"

subsection \<open>The outside world\<close>

text \<open>
  What the backend reads from outside the program during one pass, taken as parameters:
  \<^item> \<open>parse\<close> is \<^verbatim>\<open>feedparser.parse(feed_url)\<close>: it raises, or it returns a result. An
    attribute that feedparser leaves out of a feed or an entry is \<open>None\<close>; reading it
    raises \<^verbatim>\<open>AttributeError\<close>, and \<^verbatim>\<open>hasattr\<close> is false for it. When feedparser cannot
    fetch a feed or finds it malformed it does not raise: it sets the flag \<^verbatim>\<open>bozo\<close> of
    its result, which holds the entries it could read, if any. The backend never reads
    that flag.
  \<^item> \<open>requests_get\<close> is \<^verbatim>\<open>requests.get(url, headers=headers, timeout=10)\<close>: it raises (a
    timeout, a DNS or connection error), or it returns a response with a status code and
    a decoded body.
  \<^item> \<open>hash\<close> is the interpreter's builtin \<^verbatim>\<open>hash\<close> on \<^verbatim>\<open>str\<close>, which CPython keys with a
    secret drawn when the process starts.
  \<^item> \<open>clock\<close> gives the successive readings \<^verbatim>\<open>str(datetime.now())\<close> of the pass:
    \<open>clock w n\<close> is what the call returns after \<open>n\<close> earlier calls. The functions that
    read the clock take the number of readings made so far and return the new number.
\<close>

datatype py_error = AttributeError | KeyError | ZeroDivisionError

datatype http_outcome = RequestRaised | Response (status_code: nat) (response_text: str)

record entry =
  entry_link :: "str option"
  entry_title :: "str option"
  entry_summary :: "str option"
  entry_published :: "str option"

record feed =
  bozo :: bool
  feed_title :: "str option"
  entries :: "entry list"

datatype parse_outcome = ParseRaised | Parsed feed

record world =
  parse :: "str \<Rightarrow> parse_outcome"
  requests_get :: "str \<Rightarrow> http_outcome"
  hash :: "str \<Rightarrow> int"
  clock :: "nat \<Rightarrow> str"

text \<open>What the backend prints, one constructor per \<^verbatim>\<open>print\<close> statement.\<close>

datatype log_line =
  StartingNewsScraping
| ErrorScraping str
| Scraped nat str
| UpdatedNewsStorage nat nat

definition RSS_FEEDS :: "str list" where
  "RSS_FEEDS =
     map ascii
       [''https://www.artificialintelligence-news.com/feed/'',
        ''https://ai.googleblog.com/feeds/posts/default'',
        ''https://openai.com/blog/rss.xml'',
        ''https://www.deepmind.com/rss'',
        ''https://ai.meta.com/feed/'',
        ''https://syncedreview.com/feed/'',
        ''https://www.wired.com/feed/category/ai/latest/rss'']"

subsection \<open>fetch\_article\_content\<close>

text \<open>
  \<^verbatim>\<open>try: response = requests.get(...); return response.text[:500] + "..."\<close>
  \<^verbatim>\<open>except: return ""\<close>. The status code of the response is not looked at.
\<close>

definition fetch_article_content :: "world \<Rightarrow> str \<Rightarrow> str" where
  "fetch_article_content w url =
     (case requests_get w url of
        RequestRaised \<Rightarrow> []
      | Response status body \<Rightarrow> take 500 body @ ascii ''...'')"

subsection \<open>scrape\_rss\_feed\<close>

text \<open>
  One turn of the loop over \<^verbatim>\<open>feed.entries[:10]\<close>, entered after \<open>t\<close> readings of the
  clock: \<open>Inl\<close> when the turn raises, \<open>Inr (None, t)\<close> when the entry is skipped
  (\<^verbatim>\<open>continue\<close>), \<open>Inr (Some article, t')\<close> when an article is appended. \<^verbatim>\<open>entry.link\<close> is
  read by the search for an existing article, and by \<^verbatim>\<open>hash(entry.link)\<close> when the storage
  is empty; \<^verbatim>\<open>entry.title\<close> is read only for an entry that is not skipped, and before any
  reading of the clock. The dictionary is built key by key: the clock is read for
  \<^verbatim>\<open>'published'\<close> when the entry does not give it, and then once more for
  \<^verbatim>\<open>'scraped_at'\<close>.
\<close>

definition scrape_entry ::
  "world \<Rightarrow> storage \<Rightarrow> str option \<Rightarrow> nat \<Rightarrow> entry \<Rightarrow> py_error + (article option \<times> nat)"
  where
  "scrape_entry w news_storage ftitle t e =
     (case entry_link e of
        None \<Rightarrow> Inl AttributeError
      | Some l \<Rightarrow>
          (case find (\<lambda>a. link a = l) news_storage of
             Some existing \<Rightarrow> Inr (None, t)
           | None \<Rightarrow>
               (case entry_title e of
                  None \<Rightarrow> Inl AttributeError
                | Some ti \<Rightarrow>
                    (let t1 = (case entry_published e of Some p \<Rightarrow> t | None \<Rightarrow> t + 1)
                     in Inr (Some \<lparr>
                          id_key = hash w l,
                          title = ti,
                          summary = (case entry_summary e of Some s \<Rightarrow> s | None \<Rightarrow> []),
                          content =
                            (if length news_storage < 50 then fetch_article_content w l
                             else []),
                          link = l,
                          published =
                            (case entry_published e of Some p \<Rightarrow> p | None \<Rightarrow> clock w t),
                          source =
                            (case ftitle of Some s \<Rightarrow> s | None \<Rightarrow> ascii ''Unknown Source''),
                          scraped_at = clock w t1 \<rparr>,
                        t1 + 1)))))"

text \<open>
  The loop. When a turn raises, the readings of the clock made by the turns before it
  have been made.
\<close>

fun scrape_entries ::
  "world \<Rightarrow> storage \<Rightarrow> str option \<Rightarrow> nat \<Rightarrow> entry list \<Rightarrow> (py_error + article list) \<times> nat"
  where
  "scrape_entries w news_storage ftitle t [] = (Inr [], t)"
| "scrape_entries w news_storage ftitle t (e # es) =
     (case scrape_entry w news_storage ftitle t e of
        Inl err \<Rightarrow> (Inl err, t)
      | Inr (None, t') \<Rightarrow> scrape_entries w news_storage ftitle t' es
      | Inr (Some article, t') \<Rightarrow>
          (case scrape_entries w news_storage ftitle t' es of
             (Inl err, t'') \<Rightarrow> (Inl err, t'')
           | (Inr articles, t'') \<Rightarrow> (Inr (article # articles), t'')))"

text \<open>
  The whole function: the articles it returns, the lines it prints and the number of
  clock readings after it. Any exception inside the \<^verbatim>\<open>try\<close> block is caught, reported
  and answered with the empty list.
\<close>

definition scrape_rss_feed ::
  "world \<Rightarrow> storage \<Rightarrow> nat \<Rightarrow> str \<Rightarrow> article list \<times> log_line list \<times> nat" where
  "scrape_rss_feed w news_storage t feed_url =
     (case parse w feed_url of
        ParseRaised \<Rightarrow> ([], [ErrorScraping feed_url], t)
      | Parsed f \<Rightarrow>
          (case scrape_entries w news_storage (feed_title f) t (take 10 (entries f)) of
             (Inl err, t') \<Rightarrow> ([], [ErrorScraping feed_url], t')
           | (Inr articles, t') \<Rightarrow> (articles, [], t')))"

subsection \<open>scrape\_all\_feeds\<close>

text \<open>
  The first loop, \<^verbatim>\<open>for feed_url in RSS_FEEDS\<close>. The storage is not changed while it runs:
  every feed is scraped against the storage as it was when the pass began.
\<close>

fun scrape_feeds ::
  "world \<Rightarrow> storage \<Rightarrow> nat \<Rightarrow> str list \<Rightarrow> article list \<times> log_line list \<times> nat" where
  "scrape_feeds w news_storage t [] = ([], [], t)"
| "scrape_feeds w news_storage t (feed_url # rest) =
     (case scrape_rss_feed w news_storage t feed_url of
        (articles, printed, t') \<Rightarrow>
          (case scrape_feeds w news_storage t' rest of
             (later, printed_later, t'') \<Rightarrow>
               (articles @ later,
                printed @ [Scraped (length articles) feed_url] @ printed_later,
                t'')))"

text \<open>
  One pass over a list of feeds, from the first reading of the clock; the backend runs
  it on \<open>RSS_FEEDS\<close>.
\<close>

definition scrape_all_feeds ::
  "world \<Rightarrow> str list \<Rightarrow> storage \<Rightarrow> storage \<times> log_line list" where
  "scrape_all_feeds w rss_feeds news_storage =
     (case scrape_feeds w news_storage 0 rss_feeds of
        (all_articles, printed, t) \<Rightarrow>
          (let updated = merge_articles news_storage all_articles
           in (updated,
               [StartingNewsScraping] @ printed @
               [UpdatedNewsStorage (length all_articles) (length updated)])))"

subsection \<open>get\_news\<close>

text \<open>
  \<^verbatim>\<open>xs[start:stop]\<close> on a list: a negative index counts from the end, and both indices are
  clamped to the list; the slice is empty when the start is not before the stop.
\<close>

definition py_slice :: "'a list \<Rightarrow> int \<Rightarrow> int \<Rightarrow> 'a list" where
  "py_slice xs start stop =
     (let n = int (length xs);
          lo = (if start < 0 then max (start + n) 0 else min start n);
          hi = (if stop < 0 then max (stop + n) 0 else min stop n)
      in take (nat (hi - lo)) (drop (nat lo) xs))"

text \<open>
  \<^verbatim>\<open>x[sort_by]\<close> for the keys whose values are strings; the key \<^verbatim>\<open>'id'\<close> holds an integer
  and is treated apart. Any other key raises \<^verbatim>\<open>KeyError\<close>.
\<close>

definition str_field :: "str \<Rightarrow> (article \<Rightarrow> str) option" where
  "str_field k =
     (if k = ascii ''title'' then Some title
      else if k = ascii ''summary'' then Some summary
      else if k = ascii ''content'' then Some content
      else if k = ascii ''link'' then Some link
      else if k = ascii ''published'' then Some published
      else if k = ascii ''source'' then Some source
      else if k = ascii ''scraped_at'' then Some scraped_at
      else None)"

text \<open>
  \<^verbatim>\<open>sorted(news_storage, key=lambda x: x[sort_by], reverse=(order == 'desc'))\<close>. The key
  function runs once per article, so an unknown key raises only when there is an article.
\<close>

definition sorted_news :: "storage \<Rightarrow> str \<Rightarrow> str \<Rightarrow> py_error + article list" where
  "sorted_news news_storage sort_by order =
     (if news_storage = [] then Inr []
      else if sort_by = ascii ''id''
      then Inr (py_sorted id_key (order = ascii ''desc'') news_storage)
      else (case str_field sort_by of
              Some field \<Rightarrow> Inr (py_sorted field (order = ascii ''desc'') news_storage)
            | None \<Rightarrow> Inl KeyError))"

record news_page =
  articles :: "article list"
  total :: int
  page :: int
  per_page :: int
  total_pages :: int

text \<open>
  The handler of \<^verbatim>\<open>/api/news\<close>, from the query arguments once read: \<open>sort_by\<close> and \<open>order\<close>
  as strings (defaults \<^verbatim>\<open>'published'\<close> and \<^verbatim>\<open>'desc'\<close>), \<open>page\<close> and \<open>per_page\<close> as the
  integers \<^verbatim>\<open>int(...)\<close> returns (defaults 1 and 20); an argument that \<^verbatim>\<open>int\<close> rejects is
  outside the model. \<^verbatim>\<open>//\<close> is floor division and raises on a zero divisor.
\<close>

definition get_news ::
  "storage \<Rightarrow> str \<Rightarrow> str \<Rightarrow> int \<Rightarrow> int \<Rightarrow> py_error + news_page" where
  "get_news news_storage sort_by order pg per =
     (case sorted_news news_storage sort_by order of
        Inl err \<Rightarrow> Inl err
      | Inr sorted_list \<Rightarrow>
          (let start_idx = (pg - 1) * per;
               end_idx = start_idx + per;
               paginated_news = py_slice sorted_list start_idx end_idx
           in if per = 0 then Inl ZeroDivisionError
              else Inr \<lparr>
                articles = paginated_news,
                total = int (length sorted_list),
                page = pg,
                per_page = per,
                total_pages = (int (length sorted_list) + per - 1) div per \<rparr>))"

subsection \<open>What the sorted order is\<close>

text \<open>
  Independently of how the sort is computed: \<open>ys\<close> is \<open>xs\<close> sorted by a key, ascending or
  descending, when it has the same elements, its keys are in order, and elements with
  equal keys stand in the order they have in \<open>xs\<close>. There is one such list.
\<close>

definition sorted_by_key :: "('a \<Rightarrow> 'k::linorder) \<Rightarrow> bool \<Rightarrow> 'a list \<Rightarrow> 'a list \<Rightarrow> bool" where
  "sorted_by_key key descending xs ys \<longleftrightarrow>
     mset ys = mset xs \<and>
     sorted (map key (if descending then rev ys else ys)) \<and>
     (\<forall>k. filter (\<lambda>x. key x = k) ys = filter (\<lambda>x. key x = k) xs)"

text \<open>
  \<open>ys\<close> is the storage in the order that the arguments \<open>sort_by\<close> and \<open>order\<close> of a
  request ask for: by the named field, descending for the order \<^verbatim>\<open>'desc'\<close> and ascending
  for any other. No order is asked for by a name that is no field.
\<close>

definition in_requested_order :: "storage \<Rightarrow> str \<Rightarrow> str \<Rightarrow> article list \<Rightarrow> bool" where
  "in_requested_order news_storage sort_by order ys \<longleftrightarrow>
     (if sort_by = ascii ''id''
      then sorted_by_key id_key (order = ascii ''desc'') news_storage ys
      else (case str_field sort_by of
              Some field \<Rightarrow> sorted_by_key field (order = ascii ''desc'') news_storage ys
            | None \<Rightarrow> ys = news_storage))"

subsection \<open>search\_news\<close>

text \<open>\<^verbatim>\<open>s.startswith(q)\<close> and the substring test \<^verbatim>\<open>q in s\<close> on strings.\<close>

fun startswith :: "str \<Rightarrow> str \<Rightarrow> bool" where
  "startswith s [] = True"
| "startswith [] (c # q) = False"
| "startswith (d # s) (c # q) = (d = c \<and> startswith s q)"

fun py_in :: "str \<Rightarrow> str \<Rightarrow> bool" where
  "py_in q [] = (q = [])"
| "py_in q (c # s) = (startswith (c # s) q \<or> py_in q s)"

record search_result =
  found :: "article list"
  found_total :: int

text \<open>
  The handler of \<^verbatim>\<open>/api/news/search\<close>; the fields of the answer are \<^verbatim>\<open>'articles'\<close> and
  \<^verbatim>\<open>'total'\<close>. \<open>lower\<close> is Python's \<^verbatim>\<open>str.lower\<close>, a parameter of the model.
\<close>

definition search_news :: "(str \<Rightarrow> str) \<Rightarrow> storage \<Rightarrow> str \<Rightarrow> search_result" where
  "search_news lower news_storage query =
     (if query = [] then \<lparr> found = [], found_total = 0 \<rparr>
      else
        (let filtered_articles =
               filter (\<lambda>article. py_in (lower query) (lower (title article))
                                \<or> py_in (lower query) (lower (summary article)))
                 news_storage
         in \<lparr> found = filtered_articles, found_total = int (length filtered_articles) \<rparr>))"

subsection \<open>str.lower on ASCII and Greek letters\<close>

text \<open>
  \<^verbatim>\<open>str.lower\<close> maps a capital letter to its small letter, character by character, with
  one exception that depends on the neighbours: a capital sigma (931) becomes the final
  small sigma (962) at the end of a word, that is after a cased letter and not before
  one, and the small sigma (963) elsewhere. The function below is \<^verbatim>\<open>str.lower\<close> on text
  made of ASCII characters and Greek letters, without the characters that the rule for
  the sigma skips (apostrophes, full stops, colons, accents).
\<close>

definition is_cased :: "nat \<Rightarrow> bool" where
  "is_cased c \<longleftrightarrow>
     (65 \<le> c \<and> c \<le> 90) \<or> (97 \<le> c \<and> c \<le> 122) \<or>
     (913 \<le> c \<and> c \<le> 937 \<and> c \<noteq> 930) \<or> (945 \<le> c \<and> c \<le> 969)"

definition lower_letter :: "nat \<Rightarrow> nat" where
  "lower_letter c =
     (if (65 \<le> c \<and> c \<le> 90) \<or> (913 \<le> c \<and> c \<le> 937 \<and> c \<noteq> 930) then c + 32 else c)"

fun lower_after :: "bool \<Rightarrow> str \<Rightarrow> str" where
  "lower_after cased_before [] = []"
| "lower_after cased_before (c # cs) =
     (if c = 931
      then (if cased_before \<and> (case cs of [] \<Rightarrow> True | d # _ \<Rightarrow> \<not> is_cased d)
            then 962 else 963)
      else lower_letter c) # lower_after (is_cased c) cs"

definition str_lower :: "str \<Rightarrow> str" where
  "str_lower s = lower_after False s"

subsection \<open>When a feed fails\<close>

text \<open>
  A feed raises in \<^verbatim>\<open>scrape_rss_feed\<close> when something inside the \<^verbatim>\<open>try\<close> block raises:
  \<^verbatim>\<open>feedparser.parse\<close> itself, or the reading of an attribute that an entry among the
  first ten does not have.
\<close>

definition feed_raises :: "world \<Rightarrow> storage \<Rightarrow> str \<Rightarrow> bool" where
  "feed_raises w news_storage feed_url =
     (case parse w feed_url of
        ParseRaised \<Rightarrow> True
      | Parsed f \<Rightarrow>
          isl (fst (scrape_entries w news_storage (feed_title f) 0 (take 10 (entries f)))))"



subsection \<open>A small world and a small storage to run the backend on\<close>

text \<open>
  Feed \<open>a\<close> and feed \<open>b\<close> have ten entries each and share the links \<open>7\<close>, \<open>8\<close> and \<open>9\<close>;
  for feed \<open>down\<close> feedparser raises; the second entry of feed \<open>broken\<close> has no title;
  feed \<open>unreachable\<close> could not be fetched and feed \<open>malformed\<close> is not well-formed, which
  feedparser reports in its result, with the one entry it could read of the latter;
  every other URL is a feed of ten entries whose links start with the URL. No entry
  gives a date. The clock advances by a microsecond from one reading to the next.
\<close>

definition demo_links :: "str \<Rightarrow> str list" where
  "demo_links u =
     (if u = ascii ''a'' then map (\<lambda>c. [c]) (ascii ''0123456789'')
      else if u = ascii ''b'' then map (\<lambda>c. [c]) (ascii ''789ABCDEFG'')
      else map (\<lambda>c. u @ [c]) (ascii ''0123456789''))"

definition demo_entry :: "str \<Rightarrow> entry" where
  "demo_entry l =
     \<lparr> entry_link = Some l, entry_title = Some (ascii ''About '' @ l),
       entry_summary = None, entry_published = None \<rparr>"

definition demo_feed :: "str \<Rightarrow> feed" where
  "demo_feed u =
     (if u = ascii ''broken''
      then \<lparr> bozo = False, feed_title = None,
             entries = [demo_entry (ascii ''x''),
                        (demo_entry (ascii ''y'')) \<lparr> entry_title := None \<rparr>] \<rparr>
      else if u = ascii ''unreachable''
      then \<lparr> bozo = True, feed_title = None, entries = [] \<rparr>
      else if u = ascii ''malformed''
      then \<lparr> bozo = True, feed_title = None, entries = [demo_entry (ascii ''z'')] \<rparr>
      else \<lparr> bozo = False, feed_title = Some u, entries = map demo_entry (demo_links u) \<rparr>)"

definition demo_hash :: "str \<Rightarrow> int" where
  "demo_hash s = foldl (\<lambda>h c. h * 256 + int c) 0 s"

definition decimal :: "nat \<Rightarrow> str" where
  "decimal n = [48 + n div 100 mod 10, 48 + n div 10 mod 10, 48 + n mod 10]"

definition demo_world :: world where
  "demo_world =
     \<lparr> parse = (\<lambda>u. if u = ascii ''down'' then ParseRaised else Parsed (demo_feed u)),
       requests_get = (\<lambda>url. if url = ascii ''down'' then RequestRaised
                              else if url = ascii ''gone''
                              then Response 404 (ascii ''Not Found'')
                              else Response 200 (ascii ''<html>'')),
       hash = demo_hash,
       clock = (\<lambda>n. ascii ''2023-11-08 09:00:00.000'' @ decimal n) \<rparr>"

text \<open>The same world seen by an interpreter started with another hash secret.\<close>

definition other_process :: world where
  "other_process = demo_world \<lparr> hash := (\<lambda>s. demo_hash s + 1) \<rparr>"

definition gpt_article :: article where
  "gpt_article =
     \<lparr> id_key = 1, title = ascii ''OpenAI releases GPT-4 Turbo'',
       summary = ascii ''A faster model'', content = [],
       link = ascii ''https://openai.com/blog/turbo'',
       published = ascii ''2023-11-06'', source = ascii ''OpenAI'',
       scraped_at = ascii ''2023-11-07 08:00:00'' \<rparr>"

definition protein_article :: article where
  "protein_article =
     \<lparr> id_key = 2, title = ascii ''DeepMind maps proteins'',
       summary = ascii ''Structure prediction'', content = [],
       link = ascii ''https://www.deepmind.com/proteins'',
       published = ascii ''2023-11-07'', source = ascii ''DeepMind'',
       scraped_at = ascii ''2023-11-07 08:00:01'' \<rparr>"

definition llama_article :: article where
  "llama_article =
     \<lparr> id_key = 3, title = ascii ''Meta opens a model'',
       summary = ascii ''Weights for everyone'', content = [],
       link = ascii ''https://ai.meta.com/llama'',
       published = ascii ''2023-11-05'', source = ascii ''Meta'',
       scraped_at = ascii ''2023-11-07 08:00:02'' \<rparr>"

text \<open>The small storage is in no order: by date it reads second, third, first.\<close>

definition demo_storage :: storage where
  "demo_storage = [gpt_article, llama_article, protein_article]"

text \<open>Fifty stored articles, with the ids \<open>0, \<dots>, 49\<close> and links of their own.\<close>

definition full_storage :: storage where
  "full_storage =
     map (\<lambda>n. llama_article \<lparr> id_key := int n, link := ascii ''stored'' @ [n] \<rparr>) [0..<50]"

text \<open>
  An article whose title is the Greek word for street in capitals (omicron, delta,
  omicron, sigma), and the query made of the capital sigma alone.
\<close>

definition odos_article :: article where
  "odos_article =
     \<lparr> id_key = 4, title = [927, 916, 927, 931], summary = [], content = [],
       link = ascii ''https://example.org/odos'', published = ascii ''2023-11-04'',
       source = ascii ''Example'', scraped_at = ascii ''2023-11-07 08:00:03'' \<rparr>"

definition capital_sigma :: str where
  "capital_sigma = [931]"

section \<open>The storage\<close>

subsection \<open>Looking an id up and replacing in place\<close>

lemma existing_index_None: "existing_index k st = None \<longleftrightarrow> k \<notin> id_key ` set st"
  by (induction st) auto

lemma existing_index_Some:
  "existing_index k st = Some i \<Longrightarrow> i < length st \<and> id_key (st ! i) = k"
  by (induction st arbitrary: i) (auto split: if_splits)

lemma existing_index_first:
  "existing_index k st = Some i \<Longrightarrow> j < i \<Longrightarrow> id_key (st ! j) \<noteq> k"
proof (induction st arbitrary: i j)
  case Nil
  then show ?case by simp
next
  case (Cons a st)
  then show ?case by (cases j) (auto split: if_splits)
qed

text \<open>An update never changes the ids that are present, except for adding a new one.\<close>

lemma ids_upsert:
  "map id_key (upsert st a) =
     (if id_key a \<in> id_key ` set st then map id_key st else map id_key st @ [id_key a])"
proof (cases "existing_index (id_key a) st")
  case None
  then show ?thesis
    using existing_index_None [of "id_key a" st] by (simp add: upsert_def)
next
  case (Some i)
  then have i: "i < length st" "id_key (st ! i) = id_key a"
    using existing_index_Some by blast+
  then have "id_key a \<in> id_key ` set st"
    by (metis imageI nth_mem)
  moreover have "map id_key (st[i := a]) = map id_key st"
    using i by (simp add: map_update list_update_same_conv)
  ultimately show ?thesis using Some by (simp add: upsert_def)
qed

lemma length_upsert:
  "length (upsert st a) = (if id_key a \<in> id_key ` set st then length st else Suc (length st))"
  using arg_cong [OF ids_upsert, of length st a] by (simp split: if_splits)

lemma set_ids_upsert: "id_key ` set (upsert st a) = insert (id_key a) (id_key ` set st)"
  using arg_cong [OF ids_upsert, of set st a]
  by (auto simp del: set_map simp: set_map [symmetric])

lemma upsert_member: "a \<in> set (upsert st a)"
proof (cases "existing_index (id_key a) st")
  case None
  then show ?thesis by (simp add: upsert_def)
next
  case (Some i)
  then have "i < length st" using existing_index_Some by blast
  then show ?thesis using Some by (simp add: upsert_def set_update_memI)
qed

lemma upsert_fresh: "id_key a \<notin> id_key ` set st \<Longrightarrow> upsert st a = st @ [a]"
  by (simp add: upsert_def existing_index_None [symmetric])

lemma upsert_same:
  assumes "distinct (map id_key st)" and "a \<in> set st"
  shows "upsert st a = st"
proof -
  from assms(2) have "id_key a \<in> id_key ` set st" by simp
  then obtain i where i: "existing_index (id_key a) st = Some i"
    using existing_index_None by (cases "existing_index (id_key a) st") auto
  then have "i < length st" "id_key (st ! i) = id_key a"
    using existing_index_Some by blast+
  moreover have "inj_on id_key (set st)"
    using assms(1) by (simp add: distinct_map)
  ultimately have "st ! i = a"
    using assms(2) by (meson inj_onD nth_mem)
  then have "st[i := a] = st" by (metis list_update_id)
  then show ?thesis using i by (simp add: upsert_def)
qed

subsection \<open>Ids stay unique\<close>

lemma distinct_ids_upsert:
  "distinct (map id_key st) \<Longrightarrow> distinct (map id_key (upsert st a))"
  by (simp add: ids_upsert)

lemma distinct_ids_update_storage:
  "distinct (map id_key st) \<Longrightarrow> distinct (map id_key (update_storage st arts))"
  unfolding update_storage_def
  by (induction arts arbitrary: st) (simp_all add: distinct_ids_upsert)

lemma set_ids_update_storage:
  "id_key ` set (update_storage st arts) = id_key ` set st \<union> id_key ` set arts"
  unfolding update_storage_def
  by (induction arts arbitrary: st) (auto simp: set_ids_upsert)

lemma length_update_storage:
  assumes "distinct (map id_key st)"
  shows "length (update_storage st arts) = card (id_key ` set st \<union> id_key ` set arts)"
proof -
  have "distinct (map id_key (update_storage st arts))"
    using assms by (rule distinct_ids_update_storage)
  then have "card (set (map id_key (update_storage st arts))) = length (update_storage st arts)"
    using distinct_card by fastforce
  then show ?thesis by (simp add: set_ids_update_storage)
qed

subsection \<open>The descending sort\<close>

lemma set_py_sorted: "set (py_sorted key r xs) = set xs"
  by (simp add: py_sorted_def)

lemma length_py_sorted: "length (py_sorted key r xs) = length xs"
  by (simp add: py_sorted_def)

lemma distinct_py_sorted: "distinct (py_sorted key r xs) = distinct xs"
  by (simp add: py_sorted_def)

lemma distinct_map_py_sorted:
  "distinct (map g (py_sorted key r xs)) = distinct (map g xs)"
  by (simp add: distinct_map distinct_py_sorted set_py_sorted)

lemma ascending_py_sorted: "sorted (map key (py_sorted key False xs))"
  by (simp add: py_sorted_def)

lemma descending_py_sorted: "sorted (map key (rev (py_sorted key True xs)))"
  by (simp add: py_sorted_def)

lemma py_sorted_descending_id:
  "sorted (map key (rev xs)) \<Longrightarrow> py_sorted key True xs = xs"
  by (simp add: py_sorted_def sort_key_id_if_sorted)

lemma descending_take:
  assumes "sorted (map key (rev xs))"
  shows "sorted (map key (rev (take n xs)))"
proof -
  have "xs = take n xs @ drop n xs" by simp
  then have "rev xs = rev (drop n xs) @ rev (take n xs)"
    by (metis rev_append)
  with assms show ?thesis
    by (metis map_append sorted_append)
qed

lemma descending_take_drop:
  assumes "sorted (map key (rev xs))" and "x \<in> set (take n xs)" and "y \<in> set (drop n xs)"
  shows "key y \<le> key x"
proof -
  have "rev xs = rev (drop n xs) @ rev (take n xs)"
    by (metis append_take_drop_id rev_append)
  with assms(1) have "sorted (map key (rev (drop n xs)) @ map key (rev (take n xs)))"
    by simp
  then show ?thesis using assms(2,3) by (auto simp: sorted_append)
qed

subsection \<open>Sorting and truncating\<close>

lemma length_keep_recent: "length (keep_recent st) = min (length st) 100"
  by (simp add: keep_recent_def length_py_sorted)

lemma descending_keep_recent: "sorted (map published (rev (keep_recent st)))"
  unfolding keep_recent_def by (rule descending_take) (rule descending_py_sorted)

lemma keep_recent_fixed: "keep_recent (keep_recent st) = keep_recent st"
proof -
  let ?T = "keep_recent st"
  have "py_sorted published True ?T = ?T"
    using descending_keep_recent by (rule py_sorted_descending_id)
  moreover have "length ?T \<le> 100" by (simp add: keep_recent_def)
  ultimately show ?thesis by (simp add: keep_recent_def [of ?T])
qed

lemma distinct_ids_keep_recent:
  "distinct (map id_key st) \<Longrightarrow> distinct (map id_key (keep_recent st))"
  unfolding keep_recent_def
  by (metis distinct_map_py_sorted distinct_take take_map)

text \<open>
  The empty storage the backend starts with has unique ids, and a merge keeps them unique:
  every storage the backend can reach has.
\<close>

lemma distinct_ids_merge_articles:
  "distinct (map id_key st) \<Longrightarrow> distinct (map id_key (merge_articles st arts))"
  by (simp add: merge_articles_def distinct_ids_keep_recent distinct_ids_update_storage)

text \<open>
  An article that the truncation drops is dropped again when it is appended to what was
  kept: it sorts behind all hundred survivors.
\<close>

lemma keep_recent_evicted:
  assumes "a \<in> set st" and "a \<notin> set (keep_recent st)"
  shows "keep_recent (keep_recent st @ [a]) = keep_recent st"
proof -
  let ?D = "py_sorted published True st"
  let ?T = "keep_recent st"
  have T: "?T = take 100 ?D" by (simp add: keep_recent_def)
  have desc: "sorted (map published (rev ?D))" by (rule descending_py_sorted)
  have "a \<in> set ?D" using assms(1) by (simp add: set_py_sorted)
  then have "a \<in> set (take 100 ?D) \<union> set (drop 100 ?D)"
    by (metis append_take_drop_id set_append)
  with assms(2) T have a_drop: "a \<in> set (drop 100 ?D)" by simp
  then have "100 < length ?D" by (cases "100 < length ?D") auto
  then have len: "length ?T = 100" using T by simp
  have low: "\<forall>x\<in>set (rev ?T). published a \<le> published x"
    using descending_take_drop [OF desc _ a_drop] T by simp
  have "sort_key published (rev ?T) = rev ?T"
    using descending_keep_recent by (rule sort_key_id_if_sorted)
  then have "py_sorted published True (?T @ [a]) = rev (insort_key published a (rev ?T))"
    by (simp add: py_sorted_def)
  also have "\<dots> = ?T @ [a]" using low by (simp add: insort_is_Cons)
  finally show ?thesis using len by (simp add: keep_recent_def [of "?T @ [a]"])
qed

lemma merge_articles_single: "merge_articles st [a] = keep_recent (upsert st a)"
  by (simp add: merge_articles_def update_storage_def)

lemma merge_twice:
  assumes "distinct (map id_key st)"
  shows "merge_articles (merge_articles st [a]) [a] = merge_articles st [a]"
proof -
  let ?U = "upsert st a"
  let ?T = "keep_recent ?U"
  have dU: "distinct (map id_key ?U)" using assms by (rule distinct_ids_upsert)
  have dT: "distinct (map id_key ?T)" using dU by (rule distinct_ids_keep_recent)
  have aU: "a \<in> set ?U" by (rule upsert_member)
  have sub: "set ?T \<subseteq> set ?U"
    unfolding keep_recent_def by (metis set_py_sorted set_take_subset)
  have "keep_recent (upsert ?T a) = ?T"
  proof (cases "a \<in> set ?T")
    case True
    then have "upsert ?T a = ?T" using dT by (simp add: upsert_same)
    then show ?thesis by (simp add: keep_recent_fixed)
  next
    case False
    have "id_key a \<notin> id_key ` set ?T"
    proof
      assume "id_key a \<in> id_key ` set ?T"
      then obtain t where t: "t \<in> set ?T" "id_key t = id_key a" by auto
      have "inj_on id_key (set ?U)" using dU by (simp add: distinct_map)
      then have "t = a" using t aU sub by (meson inj_onD subsetD)
      with t False show False by simp
    qed
    then have "upsert ?T a = ?T @ [a]" by (rule upsert_fresh)
    then show ?thesis using keep_recent_evicted [OF aU False] by simp
  qed
  then show ?thesis by (simp add: merge_articles_single)
qed

lemma fst_scrape_all_feeds:
  "fst (scrape_all_feeds w us st) = merge_articles st (fst (scrape_feeds w st 0 us))"
  by (simp add: scrape_all_feeds_def Let_def split: prod.splits)

subsection \<open>Bounded retention\<close>

text \<open>
  C1. After a merge the storage holds at most 100 articles, whatever it held before and
  whatever the incoming articles are; so it does after every pass of
  \<^verbatim>\<open>scrape_all_feeds\<close>, which ends with that merge.
\<close>

theorem merge_bounded:
  "length (merge_articles news_storage all_articles) \<le> 100 \<and>
   length (fst (scrape_all_feeds w rss_feeds news_storage)) \<le> 100"
  by (simp add: fst_scrape_all_feeds merge_articles_def keep_recent_def)

subsection \<open>Merging the same article twice\<close>

lemma keep_recent_full:
  assumes "a \<in> set st" and "a \<notin> set (keep_recent st)"
  shows "length (keep_recent st) = 100"
proof -
  let ?D = "py_sorted published True st"
  have "a \<in> set (take 100 ?D) \<union> set (drop 100 ?D)"
    using assms(1) by (metis append_take_drop_id set_append set_py_sorted)
  with assms(2) have "a \<in> set (drop 100 ?D)" by (simp add: keep_recent_def)
  then have "100 < length ?D" by (cases "100 < length ?D") auto
  then show ?thesis by (simp add: keep_recent_def)
qed

lemma length_merge_twice:
  "length (merge_articles (merge_articles st [a]) [a]) = length (merge_articles st [a])"
proof -
  let ?T = "keep_recent (upsert st a)"
  have "length (keep_recent (upsert ?T a)) = length ?T"
  proof (cases "id_key a \<in> id_key ` set ?T")
    case True
    then show ?thesis by (simp add: length_keep_recent length_upsert)
  next
    case False
    then have "a \<notin> set ?T" by auto
    then have "length ?T = 100" using upsert_member by (rule keep_recent_full [rotated])
    then show ?thesis using False by (simp add: length_keep_recent length_upsert)
  qed
  then show ?thesis by (simp add: merge_articles_single)
qed

text \<open>
  C8. Merging is idempotent on identical input. An article whose id is already stored
  replaces the stored record at its index instead of being appended, and the storage
  keeps its length. Merging the same article a second time leaves the size of the
  storage unchanged, and in a storage with unique ids (every storage the backend
  reaches) it leaves the contents unchanged as well.
\<close>

theorem merge_idempotent:
  "(id_key a \<in> id_key ` set st \<longrightarrow>
      (\<exists>i<length st. id_key (st ! i) = id_key a \<and> upsert st a = st[i := a]) \<and>
      length (upsert st a) = length st) \<and>
   length (merge_articles (merge_articles st [a]) [a]) = length (merge_articles st [a]) \<and>
   (distinct (map id_key st) \<longrightarrow>
      merge_articles (merge_articles st [a]) [a] = merge_articles st [a])"
proof -
  have "\<exists>i<length st. id_key (st ! i) = id_key a \<and> upsert st a = st[i := a]"
    if "id_key a \<in> id_key ` set st"
  proof -
    from that obtain i where i: "existing_index (id_key a) st = Some i"
      using existing_index_None by (cases "existing_index (id_key a) st") auto
    then have "upsert st a = st[i := a]" by (simp add: upsert_def)
    then show ?thesis using existing_index_Some [OF i] by blast
  qed
  then show ?thesis using merge_twice length_merge_twice by (simp add: length_upsert)
qed

text \<open>
  On the small storage: a new version of the stored article with id 1 takes its place,
  and merging it once more gives the same three articles.
\<close>

theorem merge_idempotent_witness:
  "distinct (map id_key demo_storage) \<and>
   id_key (gpt_article \<lparr> title := ascii ''GPT-4 Turbo is out'' \<rparr>) \<in> id_key ` set demo_storage \<and>
   upsert demo_storage (gpt_article \<lparr> title := ascii ''GPT-4 Turbo is out'' \<rparr>) =
     [gpt_article \<lparr> title := ascii ''GPT-4 Turbo is out'' \<rparr>, llama_article, protein_article] \<and>
   merge_articles
     (merge_articles demo_storage [gpt_article \<lparr> title := ascii ''GPT-4 Turbo is out'' \<rparr>])
     [gpt_article \<lparr> title := ascii ''GPT-4 Turbo is out'' \<rparr>] =
   merge_articles demo_storage [gpt_article \<lparr> title := ascii ''GPT-4 Turbo is out'' \<rparr>] \<and>
   merge_articles demo_storage [gpt_article \<lparr> title := ascii ''GPT-4 Turbo is out'' \<rparr>] =
     [protein_article, gpt_article \<lparr> title := ascii ''GPT-4 Turbo is out'' \<rparr>, llama_article]"
proof -
  have d: "distinct (map id_key demo_storage)"
    by (simp add: demo_storage_def gpt_article_def protein_article_def llama_article_def)
  have m: "id_key (gpt_article \<lparr> title := ascii ''GPT-4 Turbo is out'' \<rparr>)
             \<in> id_key ` set demo_storage"
    by (simp add: demo_storage_def gpt_article_def)
  have u: "upsert demo_storage (gpt_article \<lparr> title := ascii ''GPT-4 Turbo is out'' \<rparr>) =
     [gpt_article \<lparr> title := ascii ''GPT-4 Turbo is out'' \<rparr>, llama_article, protein_article]"
    by (simp add: upsert_def demo_storage_def gpt_article_def protein_article_def
        llama_article_def)
  have l: "merge_articles demo_storage [gpt_article \<lparr> title := ascii ''GPT-4 Turbo is out'' \<rparr>] =
     [protein_article, gpt_article \<lparr> title := ascii ''GPT-4 Turbo is out'' \<rparr>, llama_article]"
    by code_simp
  show ?thesis
    using merge_idempotent
      [of "gpt_article \<lparr> title := ascii ''GPT-4 Turbo is out'' \<rparr>" demo_storage] d u l m
    by simp
qed

section \<open>Scraping\<close>

subsection \<open>What every scraped article looks like\<close>

lemma scrape_entry_article:
  assumes "scrape_entry w st ft t e = Inr (Some a, t')"
  shows "entry_link e = Some (link a) \<and> id_key a = hash w (link a) \<and>
         content a = (if length st < 50 then fetch_article_content w (link a) else [])"
  using assms by (auto simp: scrape_entry_def Let_def split: option.splits)

lemma scrape_entries_articles:
  assumes "scrape_entries w st ft t es = (Inr arts, t')" and "a \<in> set arts"
  shows "id_key a = hash w (link a) \<and>
         content a = (if length st < 50 then fetch_article_content w (link a) else [])"
  using assms
proof (induction es arbitrary: arts t t')
  case Nil
  then show ?case by simp
next
  case (Cons e es)
  show ?case
  proof (cases "scrape_entry w st ft t e")
    case (Inl err)
    with Cons.prems show ?thesis by simp
  next
    case (Inr r)
    obtain result t1 where r: "r = (result, t1)" by (cases r)
    show ?thesis
    proof (cases result)
      case None
      with Inr r Cons show ?thesis by simp
    next
      case (Some b)
      with Inr r Cons.prems obtain rest where
        rest: "scrape_entries w st ft t1 es = (Inr rest, t')" "arts = b # rest"
        by (auto split: sum.splits prod.splits)
      show ?thesis
      proof (cases "a = b")
        case True
        then show ?thesis using scrape_entry_article Inr r Some by blast
      next
        case False
        then have "a \<in> set rest" using Cons.prems(2) rest(2) by simp
        then show ?thesis using Cons.IH rest(1) by blast
      qed
    qed
  qed
qed

lemma scrape_rss_feed_articles:
  assumes "a \<in> set (fst (scrape_rss_feed w st t u))"
  shows "id_key a = hash w (link a) \<and>
         content a = (if length st < 50 then fetch_article_content w (link a) else [])"
proof (cases "parse w u")
  case ParseRaised
  with assms show ?thesis by (simp add: scrape_rss_feed_def)
next
  case (Parsed f)
  obtain r t' where r: "scrape_entries w st (feed_title f) t (take 10 (entries f)) = (r, t')"
    by (cases "scrape_entries w st (feed_title f) t (take 10 (entries f))")
  show ?thesis
  proof (cases r)
    case (Inl err)
    with assms Parsed r show ?thesis by (simp add: scrape_rss_feed_def)
  next
    case (Inr arts)
    with assms Parsed r have "a \<in> set arts" by (simp add: scrape_rss_feed_def)
    with r Inr show ?thesis using scrape_entries_articles by blast
  qed
qed

lemma scrape_feeds_articles:
  assumes "a \<in> set (fst (scrape_feeds w st t us))"
  shows "id_key a = hash w (link a) \<and>
         content a = (if length st < 50 then fetch_article_content w (link a) else [])"
  using assms
proof (induction us arbitrary: t)
  case Nil
  then show ?case by simp
next
  case (Cons u us)
  obtain A L t1 where x: "scrape_rss_feed w st t u = (A, L, t1)"
    by (cases "scrape_rss_feed w st t u")
  have "fst (scrape_feeds w st t (u # us)) = A @ fst (scrape_feeds w st t1 us)"
    by (simp add: x split: prod.splits)
  with Cons.prems have "a \<in> set A \<or> a \<in> set (fst (scrape_feeds w st t1 us))"
    by auto
  then show ?case
    using scrape_rss_feed_articles [of a w st t u] x Cons.IH [of t1] by auto
qed

lemma ids_scrape_feeds:
  "map id_key (fst (scrape_feeds w st t us)) =
     map (hash w) (map link (fst (scrape_feeds w st t us)))"
  using scrape_feeds_articles [of _ w st t us] by simp

subsection \<open>The pass, feed by feed\<close>


text \<open>What it takes for a feed to raise, in terms of the feed alone.\<close>

lemma scrape_entry_raises_iff:
  "isl (scrape_entry w st ft t e) \<longleftrightarrow>
     entry_link e = None \<or>
     (\<exists>l. entry_link e = Some l \<and> find (\<lambda>a. link a = l) st = None \<and> entry_title e = None)"
  by (auto simp: scrape_entry_def Let_def split: option.splits)

lemma scrape_entries_raises_iff:
  "isl (fst (scrape_entries w st ft t es)) \<longleftrightarrow> (\<exists>e\<in>set es. isl (scrape_entry w st ft 0 e))"
proof (induction es arbitrary: t)
  case Nil
  then show ?case by simp
next
  case (Cons e es)
  have same: "isl (scrape_entry w st ft t e) = isl (scrape_entry w st ft 0 e)"
    by (simp add: scrape_entry_raises_iff)
  show ?case
  proof (cases "scrape_entry w st ft t e")
    case (Inl err)
    then show ?thesis using same by simp
  next
    case (Inr r)
    then have no: "\<not> isl (scrape_entry w st ft 0 e)" using same by simp
    obtain result t1 where r: "r = (result, t1)" by (cases r)
    obtain R s where rest: "scrape_entries w st ft t1 es = (R, s)"
      by (cases "scrape_entries w st ft t1 es")
    have "isl R = (\<exists>e\<in>set es. isl (scrape_entry w st ft 0 e))"
      using Cons.IH [of t1] rest by simp
    then show ?thesis using Inr r rest no
      by (cases result; cases R) simp_all
  qed
qed

lemma feed_raises_iff:
  "feed_raises w st u \<longleftrightarrow>
     parse w u = ParseRaised \<or>
     (\<exists>f. parse w u = Parsed f \<and>
          (\<exists>e\<in>set (take 10 (entries f)).
             entry_link e = None \<or>
             (\<exists>l. entry_link e = Some l \<and> find (\<lambda>a. link a = l) st = None \<and>
                  entry_title e = None)))"
  by (cases "parse w u")
    (simp_all add: feed_raises_def scrape_entries_raises_iff scrape_entry_raises_iff)


subsection \<open>What does not depend on the clock\<close>





subsection \<open>A feed that fails\<close>




subsection \<open>The limit on content fetches\<close>

text \<open>
  C2, as claimed: content is fetched only while fewer than 50 articles have been
  processed in the pass, so that every article after the fiftieth of a pass has empty
  content. The code does not count the articles of the pass: it tests
  \<^verbatim>\<open>len(news_storage) < 50\<close>, and the storage does not change before the pass has scraped
  all feeds. On an empty storage, with the seven configured feeds giving ten entries
  each, the pass produces 70 articles and the twenty after the fiftieth all carry a
  fetched preview.
\<close>

theorem content_after_fifty_counterexample:
  "map content (drop 50 (fst (scrape_feeds demo_world [] 0 RSS_FEEDS))) =
     replicate 20 (ascii ''<html>...'')"
  by code_simp

text \<open>
  C2, amended: during one pass the content of an article is fetched exactly when the
  storage held fewer than 50 articles when the pass began; then every article of the
  pass carries what \<^verbatim>\<open>fetch_article_content\<close> returns for its link, otherwise every
  article of the pass has empty content.
\<close>

theorem content_budget:
  "\<forall>a\<in>set (fst (scrape_feeds w news_storage t rss_feeds)).
     content a =
       (if length news_storage < 50 then fetch_article_content w (link a) else [])"
  using scrape_feeds_articles by blast

theorem content_budget_witness:
  "content (hd (fst (scrape_feeds demo_world [] 0 [ascii ''a'']))) = ascii ''<html>...'' \<and>
   content (hd (fst (scrape_feeds demo_world full_storage 0 [ascii ''a'']))) = []"
proof -
  have e: "hd (fst (scrape_feeds demo_world [] 0 [ascii ''a'']))
             \<in> set (fst (scrape_feeds demo_world [] 0 [ascii ''a'']))"
    by code_simp
  have f: "hd (fst (scrape_feeds demo_world full_storage 0 [ascii ''a'']))
             \<in> set (fst (scrape_feeds demo_world full_storage 0 [ascii ''a'']))"
    by code_simp
  have l: "link (hd (fst (scrape_feeds demo_world [] 0 [ascii ''a'']))) = ascii ''0''"
    by code_simp
  have n: "length full_storage = 50" by (simp add: full_storage_def)
  have g: "fetch_article_content demo_world (ascii ''0'') = ascii ''<html>...''"
    by code_simp
  show ?thesis
    using bspec [OF content_budget e] bspec [OF content_budget f]
    by (simp add: l n g del: scrape_feeds.simps)
qed

subsection \<open>Ids\<close>

text \<open>
  C3, as claimed: the id is a function of the link alone, the same in every run. The id
  is \<^verbatim>\<open>hash(entry.link)\<close>, and two interpreters started with different hash secrets give
  the same link different ids: here the same feed, scraped in two such processes, yields
  the same ten links and ten different ids.
\<close>

theorem id_across_processes_counterexample:
  "map link (fst (scrape_rss_feed demo_world [] 0 (ascii ''a''))) =
     map link (fst (scrape_rss_feed other_process [] 0 (ascii ''a''))) \<and>
   map id_key (fst (scrape_rss_feed demo_world [] 0 (ascii ''a''))) =
     [48, 49, 50, 51, 52, 53, 54, 55, 56, 57] \<and>
   map id_key (fst (scrape_rss_feed other_process [] 0 (ascii ''a''))) =
     [49, 50, 51, 52, 53, 54, 55, 56, 57, 58]"
  by code_simp

text \<open>
  C3, amended: the id of an article is the interpreter's hash of its link and depends on
  nothing else. Two articles with the same link, scraped in passes whose interpreters
  hash alike (as within one process), get the same id, whatever the feeds, the storage,
  the network and the clock were.
\<close>

theorem same_link_same_id:
  assumes "a \<in> set (fst (scrape_feeds w st t us))"
    and "b \<in> set (fst (scrape_feeds w' st' t' us'))"
    and "hash w = hash w'" and "link a = link b"
  shows "id_key a = hash w (link a) \<and> id_key a = id_key b"
  using assms scrape_feeds_articles by metis

theorem same_link_same_id_witness:
  "id_key (fst (scrape_feeds demo_world [] 0 [ascii ''a'']) ! 7) = demo_hash (ascii ''7'') \<and>
   id_key (fst (scrape_feeds demo_world [] 0 [ascii ''a'']) ! 7) =
     id_key (hd (fst (scrape_feeds demo_world demo_storage 3 [ascii ''b''])))"
proof -
  have a: "fst (scrape_feeds demo_world [] 0 [ascii ''a'']) ! 7
             \<in> set (fst (scrape_feeds demo_world [] 0 [ascii ''a'']))"
    by code_simp
  have b: "hd (fst (scrape_feeds demo_world demo_storage 3 [ascii ''b'']))
             \<in> set (fst (scrape_feeds demo_world demo_storage 3 [ascii ''b'']))"
    by code_simp
  have la: "link (fst (scrape_feeds demo_world [] 0 [ascii ''a'']) ! 7) = ascii ''7''"
    by code_simp
  have lb: "link (hd (fst (scrape_feeds demo_world demo_storage 3 [ascii ''b'']))) = ascii ''7''"
    by code_simp
  have h: "hash demo_world = demo_hash" by (simp add: demo_world_def)
  show ?thesis
    using same_link_same_id [OF a b refl] by (simp add: la lb h del: scrape_feeds.simps)
qed

subsection \<open>The content preview\<close>

text \<open>
  C4, as claimed: the preview is the empty string on any failure, a status other than
  200 included. The code never reads the status: a 404 answer is previewed like any
  other.
\<close>

theorem fetch_article_content_not_found_counterexample:
  "requests_get demo_world (ascii ''gone'') = Response 404 (ascii ''Not Found'') \<and>
   fetch_article_content demo_world (ascii ''gone'') = ascii ''Not Found...''"
  by code_simp

text \<open>
  C4, amended: for every URL, \<^verbatim>\<open>fetch_article_content\<close> returns the empty string when the
  request raises (a timeout, a DNS or connection error), and the first 500 characters of
  the body followed by \<^verbatim>\<open>...\<close> whenever the request returns a response, whatever its
  status code; it never raises.
\<close>

theorem fetch_article_content_outcomes:
  "(requests_get w url = RequestRaised \<longrightarrow> fetch_article_content w url = []) \<and>
   (\<forall>status body. requests_get w url = Response status body \<longrightarrow>
      fetch_article_content w url = take 500 body @ ascii ''...'')"
  by (simp add: fetch_article_content_def)

theorem fetch_article_content_outcomes_witness:
  "requests_get demo_world (ascii ''down'') = RequestRaised \<and>
   fetch_article_content demo_world (ascii ''down'') = [] \<and>
   requests_get demo_world (ascii ''ok'') = Response 200 (ascii ''<html>'') \<and>
   fetch_article_content demo_world (ascii ''ok'') = ascii ''<html>...''"
proof -
  have d: "requests_get demo_world (ascii ''down'') = RequestRaised" by code_simp
  have k: "requests_get demo_world (ascii ''ok'') = Response 200 (ascii ''<html>'')"
    by code_simp
  have m: "take 500 (ascii ''<html>'') @ ascii ''...'' = ascii ''<html>...''"
    by code_simp
  show ?thesis
    using fetch_article_content_outcomes [of demo_world "ascii ''down''"]
      fetch_article_content_outcomes [of demo_world "ascii ''ok''"] d k m
    by simp
qed

subsection \<open>Two feeds that share links\<close>

lemma scrape_entries_fresh:
  assumes "map entry_link es = map Some ls" and "\<forall>e\<in>set es. entry_title e \<noteq> None"
  shows "\<exists>arts t'. scrape_entries w [] ft t es = (Inr arts, t') \<and> map link arts = ls"
  using assms
proof (induction es arbitrary: ls t)
  case Nil
  then show ?case by simp
next
  case (Cons e es)
  from Cons.prems(1) obtain l ls' where ls: "ls = l # ls'" "entry_link e = Some l"
    "map entry_link es = map Some ls'" by (cases ls) auto
  from Cons.prems(2) obtain ti where ti: "entry_title e = Some ti" by auto
  obtain a t1 where a: "scrape_entry w [] ft t e = Inr (Some a, t1)" "link a = l"
    using ls(2) ti by (simp add: scrape_entry_def Let_def)
  from Cons.IH [OF ls(3), of t1] Cons.prems(2) obtain rest t' where
    rest: "scrape_entries w [] ft t1 es = (Inr rest, t')" "map link rest = ls'" by auto
  show ?case using a rest ls(1) by simp
qed

lemma scrape_rss_feed_fresh:
  assumes "parse w u = Parsed f" and "map entry_link (entries f) = map Some ls"
    and "\<forall>e\<in>set (entries f). entry_title e \<noteq> None" and "length ls \<le> 10"
  shows "map link (fst (scrape_rss_feed w [] t u)) = ls"
proof -
  have "length (entries f) = length ls"
    using assms(2) by (metis length_map)
  then have "take 10 (entries f) = entries f" using assms(4) by simp
  moreover obtain arts t' where
    "scrape_entries w [] (feed_title f) t (entries f) = (Inr arts, t')" "map link arts = ls"
    using scrape_entries_fresh [OF assms(2,3)] by blast
  ultimately show ?thesis using assms(1) by (simp add: scrape_rss_feed_def)
qed

lemma two_feeds_links:
  assumes "parse w u1 = Parsed f1" and "parse w u2 = Parsed f2"
    and "map entry_link (entries f1) = map Some links1"
    and "map entry_link (entries f2) = map Some links2"
    and "\<forall>e\<in>set (entries f1) \<union> set (entries f2). entry_title e \<noteq> None"
    and "length links1 \<le> 10" and "length links2 \<le> 10"
  shows "map link (fst (scrape_feeds w [] t [u1, u2])) = links1 @ links2"
proof -
  obtain A1 L1 t1 where s1: "scrape_rss_feed w [] t u1 = (A1, L1, t1)"
    by (cases "scrape_rss_feed w [] t u1")
  obtain A2 L2 t2 where s2: "scrape_rss_feed w [] t1 u2 = (A2, L2, t2)"
    by (cases "scrape_rss_feed w [] t1 u2")
  have l1: "map link A1 = links1"
    using scrape_rss_feed_fresh [of w u1 f1 links1 t] assms(1,3,5,6) s1 by auto
  have l2: "map link A2 = links2"
    using scrape_rss_feed_fresh [of w u2 f2 links2 t1] assms(2,4,5,7) s2 by auto
  have "fst (scrape_feeds w [] t [u1, u2]) = A1 @ A2" using s1 s2 by simp
  then show ?thesis using l1 l2 by simp
qed

text \<open>
  C7. Starting from the empty storage, a pass over two feeds of ten entries each, whose
  links are distinct within each feed and of which exactly three occur in both feeds,
  leaves 17 articles in the storage. The entries are entries that can be scraped (each
  has a link and a title), and the interpreter's hash tells the 17 links apart. The check
  in \<^verbatim>\<open>scrape_rss_feed\<close> skips nothing here, the storage being empty throughout the
  pass: the shared links collapse in the update of the storage, by their ids.
\<close>

theorem two_feeds_overlap:
  assumes "parse w u1 = Parsed f1" and "parse w u2 = Parsed f2"
    and "map entry_link (entries f1) = map Some links1"
    and "map entry_link (entries f2) = map Some links2"
    and "\<forall>e\<in>set (entries f1) \<union> set (entries f2). entry_title e \<noteq> None"
    and "length links1 = 10" and "length links2 = 10"
    and "distinct links1" and "distinct links2"
    and "card (set links1 \<inter> set links2) = 3"
    and "inj_on (hash w) (set links1 \<union> set links2)"
  shows "length (fst (scrape_feeds w [] t [u1, u2])) = 20 \<and>
         length (fst (scrape_all_feeds w [u1, u2] [])) = 17"
proof -
  let ?all = "fst (scrape_feeds w [] 0 [u1, u2])"
  have links: "map link (fst (scrape_feeds w [] t' [u1, u2])) = links1 @ links2" for t'
    using assms(1-7) by (intro two_feeds_links) simp_all
  have twenty: "length (fst (scrape_feeds w [] t [u1, u2])) = 20"
    using links [of t] assms(6,7) by (metis length_map length_append numeral_Bit0)
  have "id_key ` set ?all = hash w ` (set links1 \<union> set links2)"
    using arg_cong [OF ids_scrape_feeds, of set w "[]" 0 "[u1, u2]"] links [of 0]
    by (metis set_map set_append)
  then have "length (update_storage [] ?all) = card (hash w ` (set links1 \<union> set links2))"
    by (simp add: length_update_storage)
  also have "\<dots> = card (set links1 \<union> set links2)"
    using assms(11) by (rule card_image)
  also have "\<dots> = 17"
    using card_Un_Int [of "set links1" "set links2"] assms(6-10)
    by (simp add: distinct_card)
  finally show ?thesis using twenty
    by (simp add: fst_scrape_all_feeds merge_articles_def length_keep_recent)
qed

text \<open>The feeds \<open>a\<close> and \<open>b\<close> of the small world share the links \<open>7\<close>, \<open>8\<close> and \<open>9\<close>.\<close>

theorem two_feeds_overlap_witness:
  "card (set (demo_links (ascii ''a'')) \<inter> set (demo_links (ascii ''b''))) = 3 \<and>
   length (fst (scrape_feeds demo_world [] 0 [ascii ''a'', ascii ''b''])) = 20 \<and>
   length (fst (scrape_all_feeds demo_world [ascii ''a'', ascii ''b''] [])) = 17"
proof -
  define la where "la = demo_links (ascii ''a'')"
  define lb where "lb = demo_links (ascii ''b'')"
  have p1: "parse demo_world (ascii ''a'') = Parsed (demo_feed (ascii ''a''))" by code_simp
  have p2: "parse demo_world (ascii ''b'') = Parsed (demo_feed (ascii ''b''))" by code_simp
  have e1: "map entry_link (entries (demo_feed (ascii ''a''))) = map Some la"
    unfolding la_def by code_simp
  have e2: "map entry_link (entries (demo_feed (ascii ''b''))) = map Some lb"
    unfolding lb_def by code_simp
  have "list_all (\<lambda>e. entry_title e \<noteq> None)
          (entries (demo_feed (ascii ''a'')) @ entries (demo_feed (ascii ''b'')))"
    by code_simp
  then have t: "\<forall>e\<in>set (entries (demo_feed (ascii ''a''))) \<union>
                     set (entries (demo_feed (ascii ''b''))).
                  entry_title e \<noteq> None"
    by (simp add: list_all_iff)
  have n1: "length la = 10" unfolding la_def by code_simp
  have n2: "length lb = 10" unfolding lb_def by code_simp
  have d1: "distinct la" unfolding la_def by code_simp
  have d2: "distinct lb" unfolding lb_def by code_simp
  have "length (filter (\<lambda>l. l \<in> set lb) la) = 3"
    unfolding la_def lb_def by code_simp
  moreover have "distinct (filter (\<lambda>l. l \<in> set lb) la)"
    using d1 by simp
  moreover have "set (filter (\<lambda>l. l \<in> set lb) la) = set la \<inter> set lb"
    by auto
  ultimately have c: "card (set la \<inter> set lb) = 3"
    using distinct_card by metis
  have "distinct (map demo_hash (la @ drop 3 lb))"
    unfolding la_def lb_def by code_simp
  then have inj: "inj_on demo_hash (set (la @ drop 3 lb))"
    by (simp only: distinct_map)
  have "list_all (\<lambda>l. l \<in> set (la @ drop 3 lb)) (la @ lb)"
    unfolding la_def lb_def by code_simp
  then have sub: "set la \<union> set lb \<subseteq> set (la @ drop 3 lb)"
    by (auto simp: list_all_iff)
  have h: "hash demo_world = demo_hash" by (simp add: demo_world_def)
  have i: "inj_on (hash demo_world) (set la \<union> set lb)"
    unfolding h by (rule inj_on_subset [OF inj sub])
  have "length (fst (scrape_feeds demo_world [] 0 [ascii ''a'', ascii ''b''])) = 20 \<and>
        length (fst (scrape_all_feeds demo_world [ascii ''a'', ascii ''b''] [])) = 17"
    by (rule two_feeds_overlap [OF p1 p2 e1 e2 t n1 n2 d1 d2 c i, of 0])
  with c show ?thesis unfolding la_def lb_def by (rule conjI)
qed

section \<open>Queries\<close>

subsection \<open>Substrings\<close>

lemma startswith_iff: "startswith s q \<longleftrightarrow> (\<exists>suf. s = q @ suf)"
  by (induction s q rule: startswith.induct) auto

lemma py_in_iff: "py_in q s \<longleftrightarrow> (\<exists>pre suf. s = pre @ q @ suf)"
proof (induction s)
  case Nil
  then show ?case by auto
next
  case (Cons c s)
  show ?case
  proof
    assume "py_in q (c # s)"
    then consider "startswith (c # s) q" | "py_in q s" by auto
    then show "\<exists>pre suf. c # s = pre @ q @ suf"
    proof cases
      case 1
      then obtain suf where "c # s = q @ suf" using startswith_iff by blast
      then have "c # s = [] @ q @ suf" by simp
      then show ?thesis by blast
    next
      case 2
      then obtain pre suf where "s = pre @ q @ suf" using Cons.IH by blast
      then have "c # s = (c # pre) @ q @ suf" by simp
      then show ?thesis by blast
    qed
  next
    assume "\<exists>pre suf. c # s = pre @ q @ suf"
    then obtain pre suf where eq: "c # s = pre @ q @ suf" by blast
    show "py_in q (c # s)"
    proof (cases pre)
      case Nil
      with eq have "startswith (c # s) q" using startswith_iff by auto
      then show ?thesis by simp
    next
      case (Cons d pre')
      with eq have "s = pre' @ q @ suf" by simp
      then have "py_in q s" using Cons.IH by blast
      then show ?thesis by simp
    qed
  qed
qed

text \<open>
  When both strings are lower-cased character by character, the substring test on the
  lower-cased strings finds a piece of the string that equals the query up to case.
\<close>

lemma substring_up_to_case:
  "(\<exists>pre suf. map lc s = pre @ map lc q @ suf) \<longleftrightarrow>
   (\<exists>pre mid suf. s = pre @ mid @ suf \<and> map lc mid = map lc q)"
proof
  assume "\<exists>pre suf. map lc s = pre @ map lc q @ suf"
  then obtain pre suf where "map lc s = pre @ map lc q @ suf" by blast
  then have "\<exists>us vs. s = us @ vs \<and> pre = map lc us \<and> map lc q @ suf = map lc vs"
    by (rule map_eq_append_conv [THEN iffD1])
  then obtain s1 s2 where s12: "s = s1 @ s2" and "map lc q @ suf = map lc s2"
    by (elim exE conjE)
  then have "map lc s2 = map lc q @ suf" by simp
  then have "\<exists>us vs. s2 = us @ vs \<and> map lc q = map lc us \<and> suf = map lc vs"
    by (rule map_eq_append_conv [THEN iffD1])
  then obtain mid s3 where "s2 = mid @ s3" and "map lc q = map lc mid"
    by (elim exE conjE)
  then have "s = s1 @ mid @ s3 \<and> map lc mid = map lc q" using s12 by simp
  then show "\<exists>pre mid suf. s = pre @ mid @ suf \<and> map lc mid = map lc q" by blast
next
  assume "\<exists>pre mid suf. s = pre @ mid @ suf \<and> map lc mid = map lc q"
  then obtain pre mid suf where "s = pre @ mid @ suf" "map lc mid = map lc q" by blast
  then have "map lc s = map lc pre @ map lc q @ map lc suf" by simp
  then show "\<exists>pre suf. map lc s = pre @ map lc q @ suf" by blast
qed

text \<open>Without a capital sigma, \<open>str_lower\<close> works character by character.\<close>

lemma lower_after_no_sigma: "931 \<notin> set s \<Longrightarrow> lower_after b s = map lower_letter s"
  by (induction s arbitrary: b) auto

lemma str_lower_no_sigma: "931 \<notin> set s \<Longrightarrow> str_lower s = map lower_letter s"
  by (simp add: str_lower_def lower_after_no_sigma)

subsection \<open>Search\<close>

text \<open>
  C5, as claimed: for every query, the search returns exactly the stored articles whose
  title or summary contains the query as a case-insensitive substring. The code
  compares the lower-cased query with the lower-cased title, and \<^verbatim>\<open>str.lower\<close> does not
  always lower-case a piece of a string as it lower-cases the piece alone: the capital
  sigma at the end of the title below becomes a final sigma, the query, which is that
  very letter, becomes the other small sigma, and the search misses an article whose
  title contains the query as it stands.
\<close>

theorem search_misses_verbatim_counterexample:
  "py_in capital_sigma (title odos_article) \<and>
   str_lower (title odos_article) = [959, 948, 959, 962] \<and>
   str_lower capital_sigma = [963] \<and>
   search_news str_lower [odos_article] capital_sigma = \<lparr> found = [], found_total = 0 \<rparr>"
  by code_simp

text \<open>
  C5, amended. The search for the empty query returns no article and the total 0. The
  search for any other query \<open>q\<close> returns, in the order of the storage, exactly the
  stored articles for which the lower-cased \<open>q\<close> is a substring of the lower-cased title
  or of the lower-cased summary, and their number as the total. Where lower-casing
  works character by character, as \<^verbatim>\<open>str.lower\<close> does on ASCII text, these are exactly the
  articles whose title or summary has a piece that equals \<open>q\<close> up to the case of the
  letters.
\<close>

theorem search_news_correct:
  "search_news lower st [] = \<lparr> found = [], found_total = 0 \<rparr> \<and>
   (q \<noteq> [] \<longrightarrow>
      found (search_news lower st q) =
        filter (\<lambda>a. (\<exists>pre suf. lower (title a) = pre @ lower q @ suf) \<or>
                     (\<exists>pre suf. lower (summary a) = pre @ lower q @ suf)) st \<and>
      found_total (search_news lower st q) = int (length (found (search_news lower st q))) \<and>
      found (search_news (map lc) st q) =
        filter (\<lambda>a. (\<exists>pre mid suf. title a = pre @ mid @ suf \<and> map lc mid = map lc q) \<or>
                     (\<exists>pre mid suf. summary a = pre @ mid @ suf \<and> map lc mid = map lc q))
          st)"
  by (simp add: search_news_def Let_def py_in_iff substring_up_to_case)

text \<open>
  Searching \<open>gpt\<close> in the small storage finds the one article about GPT-4, whose title
  has the query in capitals.
\<close>

theorem search_news_correct_witness:
  "ascii ''gpt'' \<noteq> [] \<and>
   filter (\<lambda>a. (\<exists>pre mid suf. title a = pre @ mid @ suf \<and>
                   map lower_letter mid = map lower_letter (ascii ''gpt'')) \<or>
                (\<exists>pre mid suf. summary a = pre @ mid @ suf \<and>
                   map lower_letter mid = map lower_letter (ascii ''gpt'')))
     demo_storage = [gpt_article] \<and>
   search_news (map lower_letter) demo_storage (ascii ''gpt'') =
     \<lparr> found = [gpt_article], found_total = 1 \<rparr> \<and>
   search_news (map lower_letter) demo_storage [] = \<lparr> found = [], found_total = 0 \<rparr>"
proof -
  have s: "search_news (map lower_letter) demo_storage (ascii ''gpt'') =
             \<lparr> found = [gpt_article], found_total = 1 \<rparr>"
    by code_simp
  have n: "ascii ''gpt'' \<noteq> []" by (simp add: ascii_def)
  note found = search_news_correct
    [of "map lower_letter" demo_storage "ascii ''gpt''" lower_letter,
     THEN conjunct2, THEN mp, OF n, THEN conjunct2, THEN conjunct2, symmetric]
  note none = search_news_correct
    [of "map lower_letter" demo_storage "ascii ''gpt''" lower_letter, THEN conjunct1]
  show ?thesis using n found none by (simp add: s)
qed

subsection \<open>Slices\<close>

lemma py_slice_forward:
  assumes "0 \<le> s" and "0 \<le> k"
  shows "py_slice xs s (s + k) = take (nat k) (drop (nat s) xs)"
proof (cases "s < int (length xs)")
  case True
  show ?thesis
  proof (cases "s + k \<le> int (length xs)")
    case True
    with assms \<open>s < int (length xs)\<close> show ?thesis
      by (simp add: py_slice_def Let_def min_def)
  next
    case False
    then have "length (drop (nat s) xs) \<le> nat k" using assms by (simp; linarith?)
    moreover have "nat (int (length xs) - s) = length (drop (nat s) xs)"
      using assms by (simp; linarith?)
    ultimately show ?thesis using assms True False
      by (simp add: py_slice_def Let_def min_def)
  qed
next
  case False
  with assms show ?thesis by (simp add: py_slice_def Let_def min_def)
qed

lemma py_slice_to_zero: "s < 0 \<Longrightarrow> py_slice xs s 0 = []"
  by (simp add: py_slice_def Let_def)

lemma py_slice_from_end:
  assumes "s < 0" and "e < 0"
  shows "py_slice xs s e = drop (length xs - nat (- s)) (take (length xs - nat (- e)) xs)"
proof -
  have lo: "nat (max (s + int (length xs)) 0) = length xs - nat (- s)"
    using assms by (simp add: max_def; linarith?)
  have hi: "nat (max (e + int (length xs)) 0) = length xs - nat (- e)"
    using assms by (simp add: max_def; linarith?)
  have "nat (max (e + int (length xs)) 0 - max (s + int (length xs)) 0) =
        (length xs - nat (- e)) - (length xs - nat (- s))"
    using assms by (simp add: max_def; linarith?)
  then show ?thesis using assms lo hi
    by (simp add: py_slice_def Let_def drop_take)
qed

subsection \<open>The sorted list\<close>

lemma ascii_eq_iff: "ascii s = ascii t \<longleftrightarrow> s = t"
  by (simp add: ascii_def inj_map_eq_map inj_on_def)

text \<open>Python's sort gives the sorted order, and nothing else is that order.\<close>

lemma py_sorted_sorted_by_key: "sorted_by_key key r xs (py_sorted key r xs)"
proof -
  have "filter (\<lambda>x. key x = k) (rev (sort_key key (rev xs))) = filter (\<lambda>x. key x = k) xs"
    for k
  proof -
    have "filter (\<lambda>x. key x = k) (rev (sort_key key (rev xs))) =
          rev (filter (\<lambda>x. key x = k) (sort_key key (rev xs)))"
      by (simp add: rev_filter)
    also have "\<dots> = rev (filter (\<lambda>x. key x = k) (rev xs))"
      by (simp only: sort_key_stable)
    also have "\<dots> = filter (\<lambda>x. key x = k) xs"
      by (simp add: rev_filter)
    finally show ?thesis .
  qed
  then show ?thesis
    by (simp add: sorted_by_key_def py_sorted_def sort_key_stable)
qed

lemma sorted_by_key_unique:
  assumes "sorted_by_key key r xs ys"
  shows "ys = py_sorted key r xs"
proof (cases r)
  case False
  have "sort_key key xs = ys"
  proof (rule properties_for_sort_key)
    show "mset ys = mset xs" using assms by (simp add: sorted_by_key_def)
    show "sorted (map key ys)" using assms False by (simp add: sorted_by_key_def)
    show "filter (\<lambda>x. key k = key x) ys = filter (\<lambda>x. key k = key x) xs" for k
      using assms by (simp add: sorted_by_key_def eq_commute [of "key k"])
  qed
  then show ?thesis using False by (simp add: py_sorted_def)
next
  case True
  have "sort_key key (rev xs) = rev ys"
  proof (rule properties_for_sort_key)
    show "mset (rev ys) = mset (rev xs)" using assms by (simp add: sorted_by_key_def)
    show "sorted (map key (rev ys))" using assms True by (simp add: sorted_by_key_def)
    show "filter (\<lambda>x. key k = key x) (rev ys) = filter (\<lambda>x. key k = key x) (rev xs)" for k
      using assms by (simp add: sorted_by_key_def eq_commute [of "key k"] rev_filter [symmetric])
  qed
  then show ?thesis using True by (simp add: py_sorted_def)
qed

lemma length_sorted_news:
  "sorted_news st sort_by order = Inr srt \<Longrightarrow> length srt = length st"
  by (auto simp: sorted_news_def length_py_sorted split: if_splits option.splits)

lemma set_sorted_news: "sorted_news st sort_by order = Inr srt \<Longrightarrow> set srt = set st"
  by (auto simp: sorted_news_def set_py_sorted split: if_splits option.splits)

text \<open>What \<^verbatim>\<open>get_news\<close> slices is the storage in the order that the request asks for.\<close>

lemma sorted_news_in_requested_order:
  assumes "sorted_news st sort_by order = Inr srt"
  shows "in_requested_order st sort_by order srt"
proof (cases "st = []")
  case True
  with assms have "srt = []" by (simp add: sorted_news_def)
  with True show ?thesis
    by (simp add: in_requested_order_def sorted_by_key_def split: option.splits)
next
  case False
  with assms show ?thesis
    by (auto simp: sorted_news_def in_requested_order_def py_sorted_sorted_by_key
        split: if_splits option.splits)
qed

text \<open>The sort raises for no field of the articles; the default sort is by date.\<close>

lemma sorted_news_field:
  "str_field sort_by = Some field \<Longrightarrow> sort_by \<noteq> ascii ''id'' \<Longrightarrow>
   sorted_news st sort_by order = Inr (py_sorted field (order = ascii ''desc'') st)"
  by (simp add: sorted_news_def py_sorted_def)

lemma sorted_news_id:
  "sorted_news st (ascii ''id'') order = Inr (py_sorted id_key (order = ascii ''desc'') st)"
  by (simp add: sorted_news_def py_sorted_def)

lemma sorted_news_default:
  "sorted_news st (ascii ''published'') (ascii ''desc'') = Inr (py_sorted published True st)"
  by (simp add: sorted_news_field str_field_def ascii_eq_iff)

subsection \<open>The number of pages\<close>

lemma page_count:
  assumes "1 \<le> (n::int)"
  shows "(int k + n - 1) div n = \<lceil>real k / real_of_int n\<rceil>"
proof -
  define d where "d = (int k + n - 1) div n"
  define r where "r = (int k + n - 1) mod n"
  have n: "0 < n" using assms by simp
  have "int k + n - 1 = n * d + r" by (simp add: d_def r_def)
  moreover have "0 \<le> r" "r < n" using n by (simp_all add: r_def)
  ultimately have a: "d * n - n < int k" and b: "int k \<le> d * n"
    by (simp_all add: mult.commute)
  have "real_of_int (d * n - n) < real_of_int (int k)" using a by (simp only: of_int_less_iff)
  then have "(real_of_int d - 1) * real_of_int n < real k"
    by (simp add: algebra_simps)
  then have lower: "real_of_int d - 1 < real k / real_of_int n"
    using n by (simp add: pos_less_divide_eq)
  have "real_of_int (int k) \<le> real_of_int (d * n)" using b by (simp only: of_int_le_iff)
  then have "real k \<le> real_of_int d * real_of_int n" by simp
  then have upper: "real k / real_of_int n \<le> real_of_int d"
    using n by (simp add: pos_divide_le_eq)
  have "\<lceil>real k / real_of_int n\<rceil> = d"
    using lower upper by (intro ceiling_unique) simp_all
  then show ?thesis by (simp add: d_def)
qed


subsection \<open>Pages\<close>

text \<open>
  C6. For a page \<open>p \<ge> 1\<close> and \<open>n \<ge> 1\<close> articles per page, whenever the sort itself
  does not raise (and it raises for no field of the articles), \<^verbatim>\<open>get_news\<close> answers with
  the slice \<open>[(p - 1) * n : p * n]\<close> of the whole storage in sorted order, that is the \<open>n\<close>
  elements from index \<open>(p - 1) * n\<close> on of the storage sorted by the requested field in
  the requested direction, with the size of the storage as total and the ceiling of
  \<open>total / n\<close> as number of pages.
\<close>

theorem get_news_page:
  assumes "1 \<le> p" and "1 \<le> n" and "sorted_news st sort_by order = Inr srt"
  shows "in_requested_order st sort_by order srt \<and>
         get_news st sort_by order p n =
           Inr \<lparr> articles = take (nat n) (drop (nat ((p - 1) * n)) srt),
                 total = int (length st), page = p, per_page = n,
                 total_pages = \<lceil>real (length st) / real_of_int n\<rceil> \<rparr>"
proof -
  have "py_slice srt ((p - 1) * n) ((p - 1) * n + n) =
        take (nat n) (drop (nat ((p - 1) * n)) srt)"
    using assms(1,2) by (intro py_slice_forward) simp_all
  moreover have "length srt = length st" using assms(3) by (rule length_sorted_news)
  ultimately have "get_news st sort_by order p n =
           Inr \<lparr> articles = take (nat n) (drop (nat ((p - 1) * n)) srt),
                 total = int (length st), page = p, per_page = n,
                 total_pages = \<lceil>real (length st) / real_of_int n\<rceil> \<rparr>"
    using assms(2,3) page_count [OF assms(2), of "length st"]
    by (simp add: get_news_def Let_def)
  then show ?thesis using sorted_news_in_requested_order [OF assms(3)] by simp
qed

text \<open>
  The small storage is not sorted. Its second page of two articles, by date and
  descending, holds the oldest article.
\<close>

theorem get_news_page_witness:
  "sorted_news demo_storage (ascii ''published'') (ascii ''desc'') =
     Inr [protein_article, gpt_article, llama_article] \<and>
   in_requested_order demo_storage (ascii ''published'') (ascii ''desc'')
     [protein_article, gpt_article, llama_article] \<and>
   get_news demo_storage (ascii ''published'') (ascii ''desc'') 2 2 =
     Inr \<lparr> articles = [llama_article], total = 3, page = 2, per_page = 2, total_pages = 2 \<rparr>"
proof -
  have h: "sorted_news demo_storage (ascii ''published'') (ascii ''desc'') =
             Inr [protein_article, gpt_article, llama_article]"
    by code_simp
  have n: "length demo_storage = 3" by (simp add: demo_storage_def)
  have c: "\<lceil>real 3 / real_of_int 2\<rceil> = 2" by (simp add: ceiling_divide_eq_div)
  show ?thesis
    using get_news_page [OF _ _ h, of 2 2] h c by (simp add: n)
qed

text \<open>
  C10. A page that is not positive is not rejected. For \<open>n \<ge> 1\<close> articles per page and
  a sort that does not raise, page 0 gives an empty list of articles, with the total
  and the number of pages of the whole storage; a negative page \<open>p\<close> gives no error
  either but a slice counted from the end of the storage in sorted order: what is left
  of its last \<open>(1 - p) * n\<close> elements once its last \<open>- p * n\<close> elements are taken off.
\<close>

theorem get_news_nonpositive_page:
  assumes "1 \<le> n" and "sorted_news st sort_by order = Inr srt"
  shows "in_requested_order st sort_by order srt \<and>
         get_news st sort_by order 0 n =
           Inr \<lparr> articles = [], total = int (length st), page = 0, per_page = n,
                 total_pages = \<lceil>real (length st) / real_of_int n\<rceil> \<rparr> \<and>
         (p < 0 \<longrightarrow>
          get_news st sort_by order p n =
            Inr \<lparr> articles = drop (length srt - nat ((1 - p) * n))
                               (take (length srt - nat (- p * n)) srt),
                  total = int (length st), page = p, per_page = n,
                  total_pages = \<lceil>real (length st) / real_of_int n\<rceil> \<rparr>)"
proof -
  have len: "length srt = length st" using assms(2) by (rule length_sorted_news)
  have zero: "py_slice srt ((0 - 1) * n) ((0 - 1) * n + n) = []"
    using assms(1) py_slice_to_zero [of "- n" srt] by simp
  have neg: "py_slice srt ((p - 1) * n) ((p - 1) * n + n) =
             drop (length srt - nat ((1 - p) * n)) (take (length srt - nat (- p * n)) srt)"
    if "p < 0"
  proof -
    have "(p - 1) * n < 0" using that assms(1) by (simp add: mult_neg_pos)
    moreover have "(p - 1) * n + n = p * n" by (simp add: algebra_simps)
    moreover have "p * n < 0" using that assms(1) by (simp add: mult_neg_pos)
    moreover have "- ((p - 1) * n) = (1 - p) * n" by (simp add: algebra_simps)
    ultimately show ?thesis using py_slice_from_end [of "(p - 1) * n" "p * n" srt] by simp
  qed
  have "get_news st sort_by order 0 n =
           Inr \<lparr> articles = [], total = int (length st), page = 0, per_page = n,
                 total_pages = \<lceil>real (length st) / real_of_int n\<rceil> \<rparr> \<and>
         (p < 0 \<longrightarrow>
          get_news st sort_by order p n =
            Inr \<lparr> articles = drop (length srt - nat ((1 - p) * n))
                               (take (length srt - nat (- p * n)) srt),
                  total = int (length st), page = p, per_page = n,
                  total_pages = \<lceil>real (length st) / real_of_int n\<rceil> \<rparr>)"
    using assms zero neg len page_count [OF assms(1), of "length st"]
    by (simp add: get_news_def Let_def)
  then show ?thesis using sorted_news_in_requested_order [OF assms(2)] by simp
qed

text \<open>
  On the small storage, which sorted by date and descending reads protein, gpt, llama:
  page 0 is empty, and page \<open>-1\<close> with two articles per page holds the newest article,
  the one before the last two.
\<close>

theorem get_news_nonpositive_page_witness:
  "sorted_news demo_storage (ascii ''published'') (ascii ''desc'') =
     Inr [protein_article, gpt_article, llama_article] \<and>
   get_news demo_storage (ascii ''published'') (ascii ''desc'') 0 2 =
     Inr \<lparr> articles = [], total = 3, page = 0, per_page = 2, total_pages = 2 \<rparr> \<and>
   get_news demo_storage (ascii ''published'') (ascii ''desc'') (- 1) 2 =
     Inr \<lparr> articles = [protein_article], total = 3, page = - 1, per_page = 2,
           total_pages = 2 \<rparr>"
proof -
  have h: "sorted_news demo_storage (ascii ''published'') (ascii ''desc'') =
             Inr [protein_article, gpt_article, llama_article]"
    by code_simp
  have n: "length demo_storage = 3" by (simp add: demo_storage_def)
  have c: "\<lceil>real 3 / real_of_int 2\<rceil> = 2" by (simp add: ceiling_divide_eq_div)
  show ?thesis
    using get_news_nonpositive_page [OF _ h, of 2 "- 1"] h c by (simp add: n)
qed

end
